theory Spec2Isabelle
  imports Main
begin

section \<open>The ping protocol session (\<open>proto.Run\<close>)\<close>

text \<open>
  The wire message of the protocol, the struct \<open>FooPingMsg\<close>. \<open>Created\<close> is a
  \<open>time.Time\<close>, kept as a natural number read from the clock.
\<close>

record FooPingMsg =
  Pong :: bool
  Created :: nat

text \<open>
  What one pass through \<open>rw.ReadMsg()\<close> followed by \<open>msg.Decode\<close> can yield: the
  read fails, the frame read does not decode, or a message is decoded. Go errors are
  kept as the text that \<open>%v\<close> prints for them.
\<close>

datatype rd = ReadErr string | DecodeErr string | Decoded FooPingMsg

text \<open>
  The places where \<open>Run\<close> can stand between two operations on something outside the
  session: \<open>Entry\<close> before \<open>pingW.Add(1)\<close>, \<open>SendPing\<close> before the first
  \<open>p2p.Send\<close>, \<open>Recv\<close> at \<open>rw.ReadMsg()\<close> inside the loop, \<open>Acked\<close> before
  \<open>pingW.Done()\<close>, \<open>SendPong\<close> before the \<open>p2p.Send\<close> of the reply, \<open>Wait\<close> at
  \<open>pingW.Wait()\<close>, \<open>Finish\<close> before \<open>protoW.Done()\<close>, and \<open>Returned r\<close> once the
  function has returned \<open>r\<close> (\<open>None\<close> is Go's \<open>nil\<close>).
\<close>

datatype pc = Entry | SendPing | Recv | Acked | SendPong | Wait | Finish
  | Returned "string option"

record session =
  pc :: pc
  ponged :: bool

text \<open>
  What the surroundings hand to the next operation: nothing (\<open>Go\<close>), the clock value
  and the error of a \<open>p2p.Send\<close>, or the outcome of reading and decoding.
\<close>

datatype input = Go | SendAt nat "string option" | ReadGot rd

text \<open>
  What the operation does outside the session: the two wait groups, a send (with
  whether it succeeded) and a receive. Calls of \<open>demo.Log\<close> are left out.
\<close>

datatype effect = PingWAdd | PingWDone | PingWWait | ProtoWDone
  | Transmit FooPingMsg bool | Receive rd

definition session0 :: session where
  "session0 = \<lparr>pc = Entry, ponged = False\<rparr>"

text \<open>The test of \<open>for !ponged\<close>: stay in the loop or go on to \<open>pingW.Wait()\<close>.\<close>

definition loop_head :: "session \<Rightarrow> pc" where
  "loop_head s = (if \<not> ponged s then Recv else Wait)"

definition send_fail :: "string \<Rightarrow> string" where
  "send_fail e = ''Send p2p message fail: '' @ e"

definition receive_fail :: "string \<Rightarrow> string" where
  "receive_fail e = ''Receive p2p message fail: '' @ e"

definition decode_fail :: "string \<Rightarrow> string" where
  "decode_fail e = ''Decode p2p message fail: '' @ e"

text \<open>
  One operation of \<open>Run\<close>. The result is \<open>None\<close> when the input is not the answer
  to the operation the session is standing at (and always once it has returned).
\<close>

fun step :: "input \<Rightarrow> session \<Rightarrow> (effect \<times> session) option" where
  "step Go s =
     (case pc s of
        Entry \<Rightarrow> Some (PingWAdd, s\<lparr>pc := SendPing, ponged := False\<rparr>)
      | Acked \<Rightarrow> Some (PingWDone, s\<lparr>pc := loop_head s\<rparr>)
      | Wait \<Rightarrow> Some (PingWWait, s\<lparr>pc := Finish\<rparr>)
      | Finish \<Rightarrow> Some (ProtoWDone, s\<lparr>pc := Returned None\<rparr>)
      | _ \<Rightarrow> None)"
| "step (SendAt now r) s =
     (case pc s of
        SendPing \<Rightarrow>
          (let msg = \<lparr>Pong = False, Created = now\<rparr> in
           case r of
             Some e \<Rightarrow> Some (Transmit msg False, s\<lparr>pc := Returned (Some (send_fail e))\<rparr>)
           | None \<Rightarrow> Some (Transmit msg True, s\<lparr>pc := loop_head s\<rparr>))
      | SendPong \<Rightarrow>
          (let msg = \<lparr>Pong = True, Created = now\<rparr> in
           case r of
             Some e \<Rightarrow> Some (Transmit msg False, s\<lparr>pc := Returned (Some (send_fail e))\<rparr>)
           | None \<Rightarrow> Some (Transmit msg True, s\<lparr>pc := loop_head s\<rparr>))
      | _ \<Rightarrow> None)"
| "step (ReadGot r) s =
     (case pc s of
        Recv \<Rightarrow>
          (case r of
             ReadErr e \<Rightarrow> Some (Receive r, s\<lparr>pc := Returned (Some (receive_fail e))\<rparr>)
           | DecodeErr e \<Rightarrow> Some (Receive r, s\<lparr>pc := Returned (Some (decode_fail e))\<rparr>)
           | Decoded m \<Rightarrow>
               if Pong m then Some (Receive r, s\<lparr>ponged := True, pc := Acked\<rparr>)
               else Some (Receive r, s\<lparr>pc := SendPong\<rparr>))
      | _ \<Rightarrow> None)"

text \<open>
  A session run against any surroundings: the inputs are consumed in order, the
  effects are collected. \<open>None\<close> when some input does not fit.
\<close>

fun exec :: "input list \<Rightarrow> session \<Rightarrow> (effect list \<times> session) option" where
  "exec [] s = Some ([], s)"
| "exec (i # is) s =
     (case step i s of
        None \<Rightarrow> None
      | Some (e, t) \<Rightarrow>
          (case exec is t of None \<Rightarrow> None | Some (es, u) \<Rightarrow> Some (e # es, u)))"

text \<open>The outcomes of reading and decoding, in order, among the effects of a run.\<close>

fun received :: "effect list \<Rightarrow> rd list" where
  "received [] = []"
| "received (Receive r # es) = r # received es"
| "received (_ # es) = received es"

text \<open>
  The receive loop of \<open>Run\<close> is left behind once the session stands at
  \<open>pingW.Wait()\<close> or later on the path to \<open>return nil\<close>; it is still inside the
  body of the loop at the first send and at \<open>Recv\<close> and \<open>SendPong\<close>.
\<close>

definition in_loop :: "pc \<Rightarrow> bool" where
  "in_loop p = (p = SendPing \<or> p = Recv \<or> p = SendPong)"

definition past_loop :: "pc \<Rightarrow> bool" where
  "past_loop p = (p = Wait \<or> p = Finish \<or> p = Returned None)"

text \<open>The last thing read and decoded is a message with \<open>Pong\<close> set.\<close>

definition pong_last :: "rd list \<Rightarrow> bool" where
  "pong_last rs = (rs \<noteq> [] \<and> (\<exists>m. last rs = Decoded m \<and> Pong m))"

definition sess_inv :: "session \<Rightarrow> rd list \<Rightarrow> bool" where
  "sess_inv s rs =
     ((in_loop (pc s) \<longrightarrow> \<not> ponged s) \<and>
      (pc s = Acked \<or> past_loop (pc s) \<longrightarrow> ponged s \<and> pong_last rs) \<and>
      (pc s = Entry \<longrightarrow> rs = []))"

section \<open>Two sessions on one connection\<close>

text \<open>
  \<open>main\<close> starts two servers and connects them, so \<open>Run\<close> is invoked once on each
  side of one connection. The two sessions are named after the servers they run on
  (\<open>srv_one\<close>, \<open>srv_two\<close>); \<open>wire s i\<close> holds the messages sent to session \<open>i\<close>
  and not yet read by it, in order. \<open>sent\<close> and \<open>got\<close> record what each session
  has sent with success and what it has taken off the wire. \<open>pingW\<close> and \<open>protoW\<close>
  are the counters of the two wait groups; \<open>main\<close> has done \<open>protoW.Add(1)\<close> twice
  before it connects the servers.
\<close>

datatype side = SrvOne | SrvTwo

fun peer :: "side \<Rightarrow> side" where
  "peer SrvOne = SrvTwo"
| "peer SrvTwo = SrvOne"

record sys =
  sess :: "side \<Rightarrow> session"
  wire :: "side \<Rightarrow> FooPingMsg list"
  sent :: "side \<Rightarrow> FooPingMsg list"
  got :: "side \<Rightarrow> FooPingMsg list"
  pingW :: int
  protoW :: int

definition sys0 :: sys where
  "sys0 = \<lparr>sess = (\<lambda>_. session0), wire = (\<lambda>_. []), sent = (\<lambda>_. []), got = (\<lambda>_. []),
           pingW = 0, protoW = 2\<rparr>"

text \<open>
  \<open>deliverable\<close> ties what a session reads to the wire: a decoded message is the
  one at the head of the wire, a frame that fails to decode was on the wire too, a
  failed read needs nothing. \<open>apply_effect\<close> carries out an effect on the wait
  groups and the wires; \<open>pingW.Wait()\<close> goes on only when the counter is zero.
  \<open>run\<close> plays a schedule: which session moves next, and with what input.
\<close>

fun deliverable :: "input \<Rightarrow> FooPingMsg list \<Rightarrow> bool" where
  "deliverable (ReadGot (Decoded m)) w = (case w of [] \<Rightarrow> False | x # _ \<Rightarrow> x = m)"
| "deliverable (ReadGot (DecodeErr e)) w = (w \<noteq> [])"
| "deliverable _ w = True"

fun apply_effect :: "side \<Rightarrow> effect \<Rightarrow> sys \<Rightarrow> sys option" where
  "apply_effect i PingWAdd s = Some (s\<lparr>pingW := pingW s + 1\<rparr>)"
| "apply_effect i PingWDone s = Some (s\<lparr>pingW := pingW s - 1\<rparr>)"
| "apply_effect i PingWWait s = (if pingW s = 0 then Some s else None)"
| "apply_effect i ProtoWDone s = Some (s\<lparr>protoW := protoW s - 1\<rparr>)"
| "apply_effect i (Transmit m ok) s =
     Some (if ok then s\<lparr>wire := (wire s)(peer i := wire s (peer i) @ [m]),
                         sent := (sent s)(i := sent s i @ [m])\<rparr>
           else s)"
| "apply_effect i (Receive (ReadErr e)) s = Some s"
| "apply_effect i (Receive r) s =
     Some (s\<lparr>wire := (wire s)(i := tl (wire s i)),
             got := (got s)(i := got s i @ take 1 (wire s i))\<rparr>)"

definition sys_step :: "side \<Rightarrow> input \<Rightarrow> sys \<Rightarrow> sys option" where
  "sys_step i inp s =
     (if \<not> deliverable inp (wire s i) then None
      else case step inp (sess s i) of
             None \<Rightarrow> None
           | Some (eff, t) \<Rightarrow> apply_effect i eff (s\<lparr>sess := (sess s)(i := t)\<rparr>))"

fun run :: "(side \<times> input) list \<Rightarrow> sys \<Rightarrow> sys option" where
  "run [] s = Some s"
| "run ((i, inp) # rest) s =
     (case sys_step i inp s of None \<Rightarrow> None | Some t \<Rightarrow> run rest t)"

text \<open>
  Observations used to state what every reachable state of the pair looks like.
  \<open>acked p\<close>: the session has decoded its pong. \<open>shape p snt gt\<close>: what a session
  standing at \<open>p\<close> has sent and taken off the wire so far, as the lists of the
  \<open>Pong\<close> flags. \<open>holds_unit p\<close>: whether the unit the session added to
  \<open>pingW\<close> is still in the counter. \<open>finished p\<close>: whether it has done
  \<open>protoW.Done()\<close>.
\<close>

definition acked :: "pc \<Rightarrow> bool" where
  "acked p = (p = Acked \<or> p = Wait \<or> p = Finish \<or> p = Returned None)"

fun shape :: "pc \<Rightarrow> bool list \<Rightarrow> bool list \<Rightarrow> bool" where
  "shape Entry snt gt = (snt = [] \<and> gt = [])"
| "shape SendPing snt gt = (snt = [] \<and> gt = [])"
| "shape Recv snt gt = (gt = [] \<and> snt = [False] \<or> gt = [False] \<and> snt = [False, True])"
| "shape SendPong snt gt = (gt = [False] \<and> snt = [False])"
| "shape (Returned (Some e)) snt gt = (snt = [] \<or> snt = [False] \<or> snt = [False, True])"
| "shape _ snt gt = (gt = [False, True] \<and> snt = [False, True])"

definition holds_unit :: "pc \<Rightarrow> int" where
  "holds_unit p = (case p of Entry \<Rightarrow> 0 | Wait \<Rightarrow> 0 | Finish \<Rightarrow> 0 | Returned None \<Rightarrow> 0 | _ \<Rightarrow> 1)"

definition finished :: "pc \<Rightarrow> int" where
  "finished p = (if p = Returned None then 1 else 0)"

text \<open>
  What holds in every state the pair can reach: each session's messages have the
  shape that belongs to where it stands, \<open>ponged\<close> is set exactly from the pong on,
  what one side has sent is what the other has taken plus what is on the wire, and
  the two counters count the units still held and the sessions that are done.
\<close>

definition pair_inv :: "sys \<Rightarrow> bool" where
  "pair_inv s =
     ((\<forall>i. shape (pc (sess s i)) (map Pong (sent s i)) (map Pong (got s i))) \<and>
      (\<forall>i. ponged (sess s i) = acked (pc (sess s i))) \<and>
      (\<forall>i. sent s (peer i) = got s i @ wire s i) \<and>
      pingW s = holds_unit (pc (sess s SrvOne)) + holds_unit (pc (sess s SrvTwo)) \<and>
      protoW s = 2 - finished (pc (sess s SrvOne)) - finished (pc (sess s SrvTwo)))"

text \<open>A session that got past \<open>pingW.Wait()\<close> has a peer that is out of its loop.\<close>

definition nil_inv :: "sys \<Rightarrow> bool" where
  "nil_inv s = (\<forall>i. pc (sess s i) = Finish \<or> pc (sess s i) = Returned None \<longrightarrow>
                    past_loop (pc (sess s (peer i))))"

text \<open>How many of the two sessions have not yet done their \<open>pingW.Add(1)\<close>.\<close>

definition unstarted :: "sys \<Rightarrow> int" where
  "unstarted s = (if pc (sess s SrvOne) = Entry then 1 else 0) +
                 (if pc (sess s SrvTwo) = Entry then 1 else 0)"

text \<open>Schedules used as concrete runs.\<close>

definition both_started :: "(side \<times> input) list" where
  "both_started = [(SrvOne, Go), (SrvOne, SendAt 1 None), (SrvTwo, Go), (SrvTwo, SendAt 2 None)]"

definition both_replied :: "(side \<times> input) list" where
  "both_replied =
     [(SrvOne, Go), (SrvOne, SendAt 1 None), (SrvTwo, Go), (SrvTwo, SendAt 2 None),
      (SrvOne, ReadGot (Decoded \<lparr>Pong = False, Created = 2\<rparr>)), (SrvOne, SendAt 3 None),
      (SrvTwo, ReadGot (Decoded \<lparr>Pong = False, Created = 1\<rparr>)), (SrvTwo, SendAt 4 None)]"

definition both_acked :: "(side \<times> input) list" where
  "both_acked =
     [(SrvOne, ReadGot (Decoded \<lparr>Pong = False, Created = 2\<rparr>)), (SrvOne, SendAt 3 None),
      (SrvTwo, ReadGot (Decoded \<lparr>Pong = False, Created = 1\<rparr>)), (SrvTwo, SendAt 4 None),
      (SrvOne, ReadGot (Decoded \<lparr>Pong = True, Created = 4\<rparr>)), (SrvOne, Go),
      (SrvTwo, ReadGot (Decoded \<lparr>Pong = True, Created = 3\<rparr>)), (SrvTwo, Go)]"

definition clean_exchange :: "(side \<times> input) list" where
  "clean_exchange =
     [(SrvOne, Go), (SrvOne, SendAt 1 None), (SrvTwo, Go), (SrvTwo, SendAt 2 None),
      (SrvOne, ReadGot (Decoded \<lparr>Pong = False, Created = 2\<rparr>)), (SrvOne, SendAt 3 None),
      (SrvTwo, ReadGot (Decoded \<lparr>Pong = False, Created = 1\<rparr>)), (SrvTwo, SendAt 4 None),
      (SrvOne, ReadGot (Decoded \<lparr>Pong = True, Created = 4\<rparr>)), (SrvOne, Go),
      (SrvTwo, ReadGot (Decoded \<lparr>Pong = True, Created = 3\<rparr>)), (SrvTwo, Go),
      (SrvTwo, Go), (SrvTwo, Go), (SrvOne, Go), (SrvOne, Go)]"

definition read_failure :: "(side \<times> input) list" where
  "read_failure = [(SrvOne, Go), (SrvOne, SendAt 1 None), (SrvOne, ReadGot (ReadErr ''EOF''))]"

definition one_started :: "(side \<times> input) list" where
  "one_started = [(SrvOne, Go), (SrvOne, SendAt 1 None)]"

definition one_fails :: "(side \<times> input) list" where
  "one_fails =
     [(SrvOne, Go), (SrvOne, SendAt 1 None), (SrvTwo, Go), (SrvTwo, SendAt 2 None),
      (SrvOne, ReadGot (Decoded \<lparr>Pong = False, Created = 2\<rparr>)), (SrvOne, SendAt 3 None),
      (SrvTwo, ReadGot (Decoded \<lparr>Pong = False, Created = 1\<rparr>)), (SrvTwo, SendAt 4 None),
      (SrvOne, ReadGot (ReadErr ''EOF''))]"

definition other_acked :: "(side \<times> input) list" where
  "other_acked = [(SrvTwo, ReadGot (Decoded \<lparr>Pong = True, Created = 3\<rparr>)), (SrvTwo, Go)]"

section \<open>The demo flow of the simulation (\<open>sim.go\<close>)\<close>

text \<open>
  The \<open>check\<close> closure handed to the step as \<open>Expect.Check\<close>. Of the context only
  whether \<open>ctx.Done()\<close> is closed matters to the \<open>select\<close>; both of its arms are
  empty, and the function goes on to log and to return \<open>true, nil\<close>.
\<close>

record ctx =
  cancelled :: bool

definition check :: "ctx \<Rightarrow> 'nid \<Rightarrow> bool \<times> string option" where
  "check c nid = (if cancelled c then (True, None) else (True, None))"

text \<open>
  Modelled from the spec: \<open>simulations.Simulation.Run\<close>, the step executor that
  \<open>main\<close> calls as \<open>sim.Run(ctx, &simulations.Step{...})\<close>, is not among the source
  files; only this call is. What follows is the algorithm of section 4.3 of the
  specification. The events are what the wait of step 3 observes, in the order it
  observes them: a value on the trigger, the cancellation, or the action ending with
  an error. \<open>pending\<close> starts as the target nodes, \<open>checked\<close> lists the nodes
  that \<open>Check\<close> has been invoked on. The predicate is given the number of its
  earlier invocations, so that its answer for a node can change from one wakeup to
  the next. The result is \<open>None\<close> while the engine is still waiting.
\<close>

datatype ('id, 'e) event = Trigger 'id | Cancelled | ActionError 'e

datatype ('id, 'e) step_result = Success | TimeoutError "'id list" | Aborted 'e

record 'id engine =
  pending :: "'id list"
  checked :: "'id list"

text \<open>
  Modelled from the spec: one round of step 3 of the executor, which is not among the
  source files. A trigger for a node outside \<open>pending\<close> is ignored; otherwise
  \<open>Check\<close> is invoked and decides; the cancellation gives the timeout error with
  the pending nodes; an error of the action is the result as it is.
\<close>

fun on_event :: "(nat \<Rightarrow> 'id \<Rightarrow> bool \<times> 'e option) \<Rightarrow> ('id, 'e) event \<Rightarrow> 'id engine
    \<Rightarrow> ('id, 'e) step_result option \<times> 'id engine" where
  "on_event chk (Trigger n) st =
     (if n \<notin> set (pending st) then (None, st)
      else (case chk (length (checked st)) n of
              (_, Some err) \<Rightarrow> (Some (Aborted err), st\<lparr>checked := checked st @ [n]\<rparr>)
            | (True, None) \<Rightarrow>
                (None, st\<lparr>pending := removeAll n (pending st), checked := checked st @ [n]\<rparr>)
            | (False, None) \<Rightarrow> (None, st\<lparr>checked := checked st @ [n]\<rparr>)))"
| "on_event chk Cancelled st = (Some (TimeoutError (pending st)), st)"
| "on_event chk (ActionError e) st = (Some (Aborted e), st)"

text \<open>
  Modelled from the spec: the loop of steps 3 and 4 of the executor, which is not
  among the source files. The step succeeds the moment \<open>pending\<close> is empty.
\<close>

fun run_loop :: "(nat \<Rightarrow> 'id \<Rightarrow> bool \<times> 'e option) \<Rightarrow> ('id, 'e) event list \<Rightarrow> 'id engine
    \<Rightarrow> ('id, 'e) step_result option \<times> 'id engine" where
  "run_loop chk [] st = (if pending st = [] then Some Success else None, st)"
| "run_loop chk (ev # rest) st =
     (if pending st = [] then (Some Success, st)
      else (case on_event chk ev st of
              (Some r, st') \<Rightarrow> (Some r, st')
            | (None, st') \<Rightarrow> run_loop chk rest st'))"

text \<open>
  Modelled from the spec: \<open>Run\<close> of the executor, which is not among the source
  files; step 2 initialises \<open>pending\<close> with a copy of the target nodes.
\<close>

definition sim_Run :: "(nat \<Rightarrow> 'id \<Rightarrow> bool \<times> 'e option) \<Rightarrow> 'id list \<Rightarrow> ('id, 'e) event list
    \<Rightarrow> ('id, 'e) step_result option \<times> 'id engine" where
  "sim_Run chk nodes evs = run_loop chk evs \<lparr>pending = nodes, checked = []\<rparr>"

text \<open>
  Modelled from the spec: the set \<open>pending\<close> of section 4.3 as it stands after the
  trigger values \<open>ns\<close> have arrived in this order, starting from \<open>ps\<close> with \<open>k\<close>
  earlier invocations of \<open>Check\<close>, or the first error that \<open>Check\<close> returns on
  the way. A value outside \<open>pending\<close> is ignored; \<open>(true, nil)\<close> removes the node;
  \<open>(false, nil)\<close> leaves it; an error ends the step. It says nothing about the
  cancellation or the action.
\<close>

fun progress :: "(nat \<Rightarrow> 'id \<Rightarrow> bool \<times> 'e option) \<Rightarrow> 'id list \<Rightarrow> nat \<Rightarrow> 'id list
    \<Rightarrow> 'e + 'id list" where
  "progress chk [] k ps = Inr ps"
| "progress chk (n # ns) k ps =
     (if n \<notin> set ps then progress chk ns k ps
      else (case chk k n of
              (_, Some err) \<Rightarrow> Inl err
            | (True, None) \<Rightarrow> progress chk ns (Suc k) (removeAll n ps)
            | (False, None) \<Rightarrow> progress chk ns (Suc k) ps))"

text \<open>Two predicates for concrete runs: one that always errs, one that always passes.\<close>

definition failing_check :: "nat \<Rightarrow> nat \<Rightarrow> bool \<times> string option" where
  "failing_check k n = (False, Some ''unhealthy'')"

definition passing_check :: "nat \<Rightarrow> nat \<Rightarrow> bool \<times> string option" where
  "passing_check k n = (True, None)"

section \<open>Properties of one session\<close>

lemma received_append: "received (es @ fs) = received es @ received fs"
  by (induction es rule: received.induct) auto

lemma step_sess_inv:
  "step i s = Some (e, t) \<Longrightarrow> sess_inv s rs \<Longrightarrow> sess_inv t (rs @ received [e])"
  by (cases i; cases "pc s")
     (auto simp: sess_inv_def in_loop_def past_loop_def pong_last_def loop_head_def Let_def
           split: option.splits rd.splits if_splits)

lemma exec_sess_inv:
  "exec ins s = Some (es, t) \<Longrightarrow> sess_inv s rs \<Longrightarrow> sess_inv t (rs @ received es)"
proof (induction ins arbitrary: s rs es)
  case Nil
  then show ?case by simp
next
  case (Cons i ins)
  from Cons.prems(1) obtain e s1 es1 where
    st: "step i s = Some (e, s1)" and ex: "exec ins s1 = Some (es1, t)" and es: "es = e # es1"
    by (auto split: option.splits)
  from step_sess_inv [OF st Cons.prems(2)] have "sess_inv s1 (rs @ received [e])" .
  from Cons.IH [OF ex this] have "sess_inv t ((rs @ received [e]) @ received es1)" .
  moreover have "received es = received [e] @ received es1"
    using es received_append [of "[e]" es1] by simp
  ultimately show ?case by simp
qed

text \<open>
  Claim C3. Whenever a session started afresh has left its receive loop (it stands at
  \<open>pingW.Wait()\<close>, at \<open>protoW.Done()\<close> or has returned \<open>nil\<close>), the last message it
  read and decoded carried \<open>Pong = true\<close>; and as long as everything it has read and
  decoded is a ping, however many there were, it has neither left the loop nor seen
  its acknowledgement.
\<close>

theorem run_leaves_loop_only_after_pong:
  assumes "exec ins session0 = Some (es, t)"
  shows "(past_loop (pc t) \<longrightarrow> pong_last (received es)) \<and>
         ((\<forall>r \<in> set (received es). \<exists>m. r = Decoded m \<and> \<not> Pong m) \<longrightarrow>
            \<not> past_loop (pc t) \<and> pc t \<noteq> Acked)"
proof -
  have "sess_inv session0 []"
    by (simp add: sess_inv_def session0_def in_loop_def past_loop_def)
  from exec_sess_inv [OF assms this] have inv: "sess_inv t (received es)" by simp
  have a: "pc t = Acked \<or> past_loop (pc t) \<Longrightarrow> pong_last (received es)"
    using inv by (simp add: sess_inv_def)
  have b: "pong_last (received es) \<Longrightarrow>
           \<not> (\<forall>r \<in> set (received es). \<exists>m. r = Decoded m \<and> \<not> Pong m)"
    unfolding pong_last_def using last_in_set by fastforce
  show ?thesis using a b by blast
qed

theorem run_leaves_loop_only_after_pong_witness:
  "exec [Go, SendAt 1 None, ReadGot (Decoded \<lparr>Pong = False, Created = 2\<rparr>), SendAt 3 None,
         ReadGot (Decoded \<lparr>Pong = True, Created = 4\<rparr>), Go, Go, Go] session0
     = Some ([PingWAdd, Transmit \<lparr>Pong = False, Created = 1\<rparr> True,
              Receive (Decoded \<lparr>Pong = False, Created = 2\<rparr>),
              Transmit \<lparr>Pong = True, Created = 3\<rparr> True,
              Receive (Decoded \<lparr>Pong = True, Created = 4\<rparr>), PingWDone, PingWWait, ProtoWDone],
             \<lparr>pc = Returned None, ponged = True\<rparr>) \<and>
   pong_last [Decoded \<lparr>Pong = False, Created = 2\<rparr>, Decoded \<lparr>Pong = True, Created = 4\<rparr>] \<and>
   exec [Go, SendAt 1 None, ReadGot (Decoded \<lparr>Pong = False, Created = 2\<rparr>), SendAt 3 None,
         ReadGot (Decoded \<lparr>Pong = False, Created = 5\<rparr>), SendAt 6 None] session0
     = Some ([PingWAdd, Transmit \<lparr>Pong = False, Created = 1\<rparr> True,
              Receive (Decoded \<lparr>Pong = False, Created = 2\<rparr>),
              Transmit \<lparr>Pong = True, Created = 3\<rparr> True,
              Receive (Decoded \<lparr>Pong = False, Created = 5\<rparr>),
              Transmit \<lparr>Pong = True, Created = 6\<rparr> True],
             \<lparr>pc = Recv, ponged = False\<rparr>) \<and>
   \<not> past_loop Recv"
proof -
  have h1: "exec [Go, SendAt 1 None, ReadGot (Decoded \<lparr>Pong = False, Created = 2\<rparr>), SendAt 3 None,
         ReadGot (Decoded \<lparr>Pong = True, Created = 4\<rparr>), Go, Go, Go] session0
     = Some ([PingWAdd, Transmit \<lparr>Pong = False, Created = 1\<rparr> True,
              Receive (Decoded \<lparr>Pong = False, Created = 2\<rparr>),
              Transmit \<lparr>Pong = True, Created = 3\<rparr> True,
              Receive (Decoded \<lparr>Pong = True, Created = 4\<rparr>), PingWDone, PingWWait, ProtoWDone],
             \<lparr>pc = Returned None, ponged = True\<rparr>)"
    by (simp add: session0_def loop_head_def)
  have h2: "exec [Go, SendAt 1 None, ReadGot (Decoded \<lparr>Pong = False, Created = 2\<rparr>), SendAt 3 None,
         ReadGot (Decoded \<lparr>Pong = False, Created = 5\<rparr>), SendAt 6 None] session0
     = Some ([PingWAdd, Transmit \<lparr>Pong = False, Created = 1\<rparr> True,
              Receive (Decoded \<lparr>Pong = False, Created = 2\<rparr>),
              Transmit \<lparr>Pong = True, Created = 3\<rparr> True,
              Receive (Decoded \<lparr>Pong = False, Created = 5\<rparr>),
              Transmit \<lparr>Pong = True, Created = 6\<rparr> True],
             \<lparr>pc = Recv, ponged = False\<rparr>)"
    by (simp add: session0_def loop_head_def)
  from run_leaves_loop_only_after_pong [OF h1] run_leaves_loop_only_after_pong [OF h2]
  show ?thesis using h1 h2 by (simp add: past_loop_def)
qed

section \<open>Properties of the pair\<close>

text \<open>The steps the pair can take, one case for each operation of \<open>Run\<close>.\<close>

lemma sys_step_cases [consumes 1, case_names add done_ wait fin ping_ok ping_fail pong_ok pong_fail
    read_err decode_err got_pong got_ping]:
  assumes "sys_step i inp s = Some t"
  obtains
    "inp = Go" "pc (sess s i) = Entry"
      "t = s\<lparr>sess := (sess s)(i := sess s i\<lparr>pc := SendPing, ponged := False\<rparr>),
             pingW := pingW s + 1\<rparr>"
  | "inp = Go" "pc (sess s i) = Acked"
      "t = s\<lparr>sess := (sess s)(i := sess s i\<lparr>pc := loop_head (sess s i)\<rparr>),
             pingW := pingW s - 1\<rparr>"
  | "inp = Go" "pc (sess s i) = Wait" "pingW s = 0"
      "t = s\<lparr>sess := (sess s)(i := sess s i\<lparr>pc := Finish\<rparr>)\<rparr>"
  | "inp = Go" "pc (sess s i) = Finish"
      "t = s\<lparr>sess := (sess s)(i := sess s i\<lparr>pc := Returned None\<rparr>),
             protoW := protoW s - 1\<rparr>"
  | now where "inp = SendAt now None" "pc (sess s i) = SendPing"
      "t = s\<lparr>sess := (sess s)(i := sess s i\<lparr>pc := loop_head (sess s i)\<rparr>),
             wire := (wire s)((peer i) := wire s (peer i) @ [\<lparr>Pong = False, Created = now\<rparr>]),
             sent := (sent s)(i := sent s i @ [\<lparr>Pong = False, Created = now\<rparr>])\<rparr>"
  | now e where "inp = SendAt now (Some e)" "pc (sess s i) = SendPing"
      "t = s\<lparr>sess := (sess s)(i := sess s i\<lparr>pc := Returned (Some (send_fail e))\<rparr>)\<rparr>"
  | now where "inp = SendAt now None" "pc (sess s i) = SendPong"
      "t = s\<lparr>sess := (sess s)(i := sess s i\<lparr>pc := loop_head (sess s i)\<rparr>),
             wire := (wire s)((peer i) := wire s (peer i) @ [\<lparr>Pong = True, Created = now\<rparr>]),
             sent := (sent s)(i := sent s i @ [\<lparr>Pong = True, Created = now\<rparr>])\<rparr>"
  | now e where "inp = SendAt now (Some e)" "pc (sess s i) = SendPong"
      "t = s\<lparr>sess := (sess s)(i := sess s i\<lparr>pc := Returned (Some (send_fail e))\<rparr>)\<rparr>"
  | e where "inp = ReadGot (ReadErr e)" "pc (sess s i) = Recv"
      "t = s\<lparr>sess := (sess s)(i := sess s i\<lparr>pc := Returned (Some (receive_fail e))\<rparr>)\<rparr>"
  | e m rest where "inp = ReadGot (DecodeErr e)" "pc (sess s i) = Recv" "wire s i = m # rest"
      "t = s\<lparr>sess := (sess s)(i := sess s i\<lparr>pc := Returned (Some (decode_fail e))\<rparr>),
             wire := (wire s)(i := rest), got := (got s)(i := got s i @ [m])\<rparr>"
  | m rest where "inp = ReadGot (Decoded m)" "pc (sess s i) = Recv" "wire s i = m # rest" "Pong m"
      "t = s\<lparr>sess := (sess s)(i := sess s i\<lparr>ponged := True, pc := Acked\<rparr>),
             wire := (wire s)(i := rest), got := (got s)(i := got s i @ [m])\<rparr>"
  | m rest where "inp = ReadGot (Decoded m)" "pc (sess s i) = Recv" "wire s i = m # rest" "\<not> Pong m"
      "t = s\<lparr>sess := (sess s)(i := sess s i\<lparr>pc := SendPong\<rparr>),
             wire := (wire s)(i := rest), got := (got s)(i := got s i @ [m])\<rparr>"
proof (cases inp)
  case Go
  with assms show ?thesis
    by (cases "pc (sess s i)") (auto simp: sys_step_def split: if_splits intro: that)
next
  case (SendAt now r)
  with assms show ?thesis
    by (cases "pc (sess s i)"; cases r) (auto simp: sys_step_def Let_def intro: that)
next
  case (ReadGot r)
  with assms show ?thesis
    by (cases "pc (sess s i)"; cases r; cases "wire s i")
       (auto simp: sys_step_def split: if_splits intro: that)
qed

lemma pair_inv_sys0: "pair_inv sys0"
  by (simp add: pair_inv_def sys0_def session0_def acked_def holds_unit_def finished_def)

lemma shape_sent: "shape p snt gt \<Longrightarrow> snt = [] \<or> snt = [False] \<or> snt = [False, True]"
  by (cases "(p, snt, gt)" rule: shape.cases) auto

lemma peer_neq [simp]: "peer i \<noteq> i" "i \<noteq> peer i"
  by (cases i; simp)+

lemma peer_peer [simp]: "peer (peer i) = i"
  by (cases i) simp_all

lemma side_cases: "(k = i \<Longrightarrow> P) \<Longrightarrow> (k = peer i \<Longrightarrow> P) \<Longrightarrow> P"
  by (cases k; cases i) auto

lemma ctl_step:
  assumes "sys_step i inp s = Some t" and "\<forall>k. ponged (sess s k) = acked (pc (sess s k))"
  shows "ponged (sess t k) = acked (pc (sess t k))"
proof -
  have a: "ponged (sess s i) = acked (pc (sess s i))" and b: "ponged (sess s k) = acked (pc (sess s k))"
    using assms(2) by blast+
  show ?thesis using assms(1)
  proof (cases rule: sys_step_cases)
  qed (use a b in \<open>simp_all add: acked_def loop_head_def\<close>)
qed

lemma wire_step:
  assumes "sys_step i inp s = Some t" and "\<forall>k. sent s (peer k) = got s k @ wire s k"
  shows "sent t (peer k) = got t k @ wire t k"
proof -
  have a: "sent s (peer i) = got s i @ wire s i" using assms(2) by blast
  have b: "sent s i = got s (peer i) @ wire s (peer i)" using assms(2) [rule_format, of "peer i"] by simp
  show ?thesis
  proof (rule side_cases [of k i])
    assume k: "k = i"
    show ?thesis using assms(1)
    proof (cases rule: sys_step_cases)
    qed (use a k in \<open>simp_all\<close>)
  next
    assume k: "k = peer i"
    show ?thesis using assms(1)
    proof (cases rule: sys_step_cases)
    qed (use b k in \<open>simp_all\<close>)
  qed
qed

lemma cnt_sym:
  "(pingW s = holds_unit (pc (sess s SrvOne)) + holds_unit (pc (sess s SrvTwo)) \<and>
    protoW s = 2 - finished (pc (sess s SrvOne)) - finished (pc (sess s SrvTwo))) =
   (pingW s = holds_unit (pc (sess s i)) + holds_unit (pc (sess s (peer i))) \<and>
    protoW s = 2 - finished (pc (sess s i)) - finished (pc (sess s (peer i))))"
  by (cases i) auto

lemma cnt_step:
  assumes "sys_step i inp s = Some t"
    and "\<forall>k. ponged (sess s k) = acked (pc (sess s k))"
    and "pingW s = holds_unit (pc (sess s SrvOne)) + holds_unit (pc (sess s SrvTwo)) \<and>
         protoW s = 2 - finished (pc (sess s SrvOne)) - finished (pc (sess s SrvTwo))"
  shows "pingW t = holds_unit (pc (sess t SrvOne)) + holds_unit (pc (sess t SrvTwo)) \<and>
         protoW t = 2 - finished (pc (sess t SrvOne)) - finished (pc (sess t SrvTwo))"
proof -
  have a: "ponged (sess s i) = acked (pc (sess s i))" using assms(2) by blast
  have b: "pingW s = holds_unit (pc (sess s i)) + holds_unit (pc (sess s (peer i)))"
    and c: "protoW s = 2 - finished (pc (sess s i)) - finished (pc (sess s (peer i)))"
    using assms(3) cnt_sym [of s i] by simp_all
  have "pingW t = holds_unit (pc (sess t i)) + holds_unit (pc (sess t (peer i))) \<and>
        protoW t = 2 - finished (pc (sess t i)) - finished (pc (sess t (peer i)))"
    using assms(1)
  proof (cases rule: sys_step_cases)
  qed (use a b c in \<open>simp_all add: acked_def loop_head_def holds_unit_def finished_def\<close>)
  then show ?thesis using cnt_sym [of t i] by simp
qed

lemma shape_step:
  assumes "sys_step i inp s = Some t"
    and "\<forall>k. shape (pc (sess s k)) (map Pong (sent s k)) (map Pong (got s k))"
    and "\<forall>k. ponged (sess s k) = acked (pc (sess s k))"
    and "\<forall>k. sent s (peer k) = got s k @ wire s k"
  shows "shape (pc (sess t k)) (map Pong (sent t k)) (map Pong (got t k))"
proof (rule side_cases [of k i])
  assume k: "k = peer i"
  have other: "shape (pc (sess s (peer i))) (map Pong (sent s (peer i))) (map Pong (got s (peer i)))"
    using assms(2) by blast
  show ?thesis using assms(1)
  proof (cases rule: sys_step_cases)
  qed (use other k in \<open>simp_all\<close>)
next
  assume k: "k = i"
  have mine: "shape (pc (sess s i)) (map Pong (sent s i)) (map Pong (got s i))"
    using assms(2) by blast
  have "shape (pc (sess s (peer i))) (map Pong (sent s (peer i))) (map Pong (got s (peer i)))"
    using assms(2) by blast
  from shape_sent [OF this] have
    peer: "map Pong (got s i) @ map Pong (wire s i) = [] \<or>
           map Pong (got s i) @ map Pong (wire s i) = [False] \<or>
           map Pong (got s i) @ map Pong (wire s i) = [False, True]"
    using assms(4) [rule_format, of i] by simp
  have pg: "ponged (sess s i) = acked (pc (sess s i))" using assms(3) by blast
  show ?thesis using assms(1)
  proof (cases rule: sys_step_cases)
    case (got_pong m rest)
    from mine got_pong(2) have
      "map Pong (got s i) = [] \<and> map Pong (sent s i) = [False] \<or>
       map Pong (got s i) = [False] \<and> map Pong (sent s i) = [False, True]" by simp
    then show ?thesis
    proof
      assume g: "map Pong (got s i) = [] \<and> map Pong (sent s i) = [False]"
      with peer got_pong(3,4) have False by simp
      then show ?thesis ..
    next
      assume g: "map Pong (got s i) = [False] \<and> map Pong (sent s i) = [False, True]"
      with got_pong k show ?thesis by simp
    qed
  next
    case (got_ping m rest)
    from mine got_ping(2) have
      "map Pong (got s i) = [] \<and> map Pong (sent s i) = [False] \<or>
       map Pong (got s i) = [False] \<and> map Pong (sent s i) = [False, True]" by simp
    then show ?thesis
    proof
      assume g: "map Pong (got s i) = [] \<and> map Pong (sent s i) = [False]"
      with got_ping k show ?thesis by simp
    next
      assume g: "map Pong (got s i) = [False] \<and> map Pong (sent s i) = [False, True]"
      with peer got_ping(3,4) have False by simp
      then show ?thesis ..
    qed
  next
    case (decode_err e m rest)
    with mine k show ?thesis by auto
  next
    case (pong_ok now)
    with mine k pg show ?thesis by (simp add: acked_def loop_head_def)
  next
    case (ping_ok now)
    with mine k pg show ?thesis by (simp add: acked_def loop_head_def)
  qed (use mine k pg in \<open>auto simp: acked_def loop_head_def\<close>)
qed

lemma pair_inv_step:
  assumes "sys_step i inp s = Some t" and "pair_inv s"
  shows "pair_inv t"
  unfolding pair_inv_def
  using ctl_step [OF assms(1)] wire_step [OF assms(1)] shape_step [OF assms(1)]
    cnt_step [OF assms(1)] assms(2) [unfolded pair_inv_def]
  by blast

lemma pair_inv_run: "run sched s = Some t \<Longrightarrow> pair_inv s \<Longrightarrow> pair_inv t"
proof (induction sched arbitrary: s)
  case Nil
  then show ?case by simp
next
  case (Cons x sched)
  obtain i inp where x: "x = (i, inp)" by (cases x)
  from Cons.prems(1) x obtain s1 where
    st: "sys_step i inp s = Some s1" and r: "run sched s1 = Some t"
    by (auto split: option.splits)
  from Cons.IH [OF r pair_inv_step [OF st Cons.prems(2)]] show ?case .
qed

lemma holds_unit_range: "holds_unit p = 0 \<or> holds_unit p = 1"
  by (cases p) (auto simp: holds_unit_def split: option.splits)

lemma holds_unit_zero:
  "holds_unit p = 0 \<Longrightarrow> p = Entry \<or> past_loop p"
  by (cases p) (auto simp: holds_unit_def past_loop_def split: option.splits)

lemma acked_peer_started:
  assumes "pair_inv s" and "acked (pc (sess s i))"
  shows "pc (sess s (peer i)) \<noteq> Entry" and "pc (sess s (peer i)) \<noteq> SendPing"
proof -
  have sh: "shape (pc (sess s i)) (map Pong (sent s i)) (map Pong (got s i))"
    and w: "sent s (peer i) = got s i @ wire s i"
    and shp: "shape (pc (sess s (peer i))) (map Pong (sent s (peer i))) (map Pong (got s (peer i)))"
    using assms(1) unfolding pair_inv_def by blast+
  from sh assms(2) have "map Pong (got s i) = [False, True]"
    by (auto simp: acked_def)
  then have ne: "sent s (peer i) \<noteq> []" using w by auto
  show "pc (sess s (peer i)) \<noteq> Entry" using shp ne by auto
  show "pc (sess s (peer i)) \<noteq> SendPing" using shp ne by auto
qed

lemma wait_passes_peer_past_loop:
  assumes "pair_inv s" and "pc (sess s i) = Wait" and "pingW s = 0"
  shows "past_loop (pc (sess s (peer i)))"
proof -
  have "pingW s = holds_unit (pc (sess s i)) + holds_unit (pc (sess s (peer i)))"
    using assms(1) cnt_sym [of s i] unfolding pair_inv_def by blast
  with assms(3) holds_unit_range [of "pc (sess s i)"] holds_unit_range [of "pc (sess s (peer i))"]
  have "holds_unit (pc (sess s (peer i))) = 0" by auto
  from holds_unit_zero [OF this] acked_peer_started(1) [OF assms(1), of i] assms(2)
  show ?thesis by (auto simp: acked_def)
qed

lemma nil_inv_step:
  assumes "sys_step i inp s = Some t" and "pair_inv s" and "nil_inv s"
  shows "nil_inv t"
proof -
  have a: "pc (sess s i) = Finish \<or> pc (sess s i) = Returned None \<longrightarrow> past_loop (pc (sess s (peer i)))"
    and b: "pc (sess s (peer i)) = Finish \<or> pc (sess s (peer i)) = Returned None \<longrightarrow> past_loop (pc (sess s i))"
    using assms(3) nil_inv_def [of s] peer_peer [of i] by metis+
  have pg: "ponged (sess s i) = acked (pc (sess s i))" using assms(2) unfolding pair_inv_def by blast
  have mine: "pc (sess t i) = Finish \<or> pc (sess t i) = Returned None \<longrightarrow> past_loop (pc (sess t (peer i)))"
    using assms(1)
  proof (cases rule: sys_step_cases)
    case wait
    with wait_passes_peer_past_loop [OF assms(2) wait(2) wait(3)] show ?thesis by simp
  qed (use a pg in \<open>simp_all add: loop_head_def acked_def\<close>)
  have other: "pc (sess t (peer i)) = Finish \<or> pc (sess t (peer i)) = Returned None \<longrightarrow> past_loop (pc (sess t i))"
    using assms(1)
  proof (cases rule: sys_step_cases)
  qed (use b pg in \<open>auto simp: loop_head_def acked_def past_loop_def\<close>)
  show ?thesis
    unfolding nil_inv_def
  proof (intro allI)
    fix k
    show "pc (sess t k) = Finish \<or> pc (sess t k) = Returned None \<longrightarrow> past_loop (pc (sess t (peer k)))"
      by (rule side_cases [of k i]) (use mine other in simp_all)
  qed
qed

lemma nil_inv_sys0: "nil_inv sys0"
  by (simp add: nil_inv_def sys0_def session0_def)

lemma invs_run:
  "run sched s = Some t \<Longrightarrow> pair_inv s \<Longrightarrow> nil_inv s \<Longrightarrow> pair_inv t \<and> nil_inv t"
proof (induction sched arbitrary: s)
  case Nil
  then show ?case by simp
next
  case (Cons x sched)
  obtain i inp where x: "x = (i, inp)" by (cases x)
  from Cons.prems(1) x obtain s1 where
    st: "sys_step i inp s = Some s1" and r: "run sched s1 = Some t"
    by (auto split: option.splits)
  from Cons.IH [OF r pair_inv_step [OF st Cons.prems(2)] nil_inv_step [OF st Cons.prems(2,3)]]
  show ?case .
qed

lemma reachable_invs: "run sched sys0 = Some s \<Longrightarrow> pair_inv s \<and> nil_inv s"
  using invs_run [OF _ pair_inv_sys0 nil_inv_sys0] .

text \<open>
  The counters are kept as integers. Go's wait group panics when its counter would
  drop below zero; that never happens here, since \<open>pingW.Done()\<close> and
  \<open>protoW.Done()\<close> are reached only with the counter at one or more.
\<close>

lemma counters_nonneg:
  assumes "run sched sys0 = Some s"
  shows "0 \<le> pingW s \<and> 0 \<le> protoW s \<and>
         (pc (sess s i) = Acked \<longrightarrow> 1 \<le> pingW s) \<and>
         (pc (sess s i) = Finish \<longrightarrow> 1 \<le> protoW s)"
proof -
  from reachable_invs [OF assms] have inv: "pair_inv s" ..
  have p: "pingW s = holds_unit (pc (sess s i)) + holds_unit (pc (sess s (peer i)))"
    and q: "protoW s = 2 - finished (pc (sess s i)) - finished (pc (sess s (peer i)))"
    using inv cnt_sym [of s i] unfolding pair_inv_def by blast+
  have f: "finished x = 0 \<or> finished x = 1" for x by (simp add: finished_def)
  have a: "0 \<le> pingW s"
    using p holds_unit_range [of "pc (sess s i)"] holds_unit_range [of "pc (sess s (peer i))"]
    by auto
  have b: "0 \<le> protoW s"
    using q f [of "pc (sess s i)"] f [of "pc (sess s (peer i))"] by auto
  have c: "1 \<le> pingW s" if "pc (sess s i) = Acked"
    using p that holds_unit_range [of "pc (sess s (peer i))"] by (auto simp: holds_unit_def)
  have d: "1 \<le> protoW s" if "pc (sess s i) = Finish"
    using q that f [of "pc (sess s (peer i))"] by (auto simp: finished_def)
  show ?thesis using a b c d by blast
qed

lemma all_side: "(\<forall>i. P i) = (P SrvOne \<and> P SrvTwo)"
  by (metis side.exhaust)

lemma clean_exchange_runs:
  "\<exists>s. run clean_exchange sys0 = Some s \<and> (\<forall>i. pc (sess s i) = Returned None)"
  by (simp add: clean_exchange_def sys0_def session0_def sys_step_def loop_head_def all_side)

lemma step_counters:
  assumes "sys_step i inp s = Some t"
  shows "(if pc (sess s i) = Entry then pingW t = pingW s + 1 else pingW t \<le> pingW s) \<and>
         protoW t \<le> protoW s \<and> pc (sess t i) \<noteq> Entry \<and> sess t (peer i) = sess s (peer i)"
  using assms
proof (cases rule: sys_step_cases)
qed (simp_all add: loop_head_def)

lemma unstarted_sym:
  "unstarted s = (if pc (sess s i) = Entry then 1 else 0) +
                 (if pc (sess s (peer i)) = Entry then 1 else 0)"
  by (cases i) (simp_all add: unstarted_def)

lemma step_unstarted:
  assumes "sys_step i inp s = Some t"
  shows "pingW t + unstarted t \<le> pingW s + unstarted s \<and> unstarted t \<le> unstarted s \<and>
         protoW t \<le> protoW s"
  using step_counters [OF assms] unstarted_sym [of s i] unstarted_sym [of t i]
  by (auto split: if_splits)

lemma both_started_runs:
  "\<exists>s t. run both_started sys0 = Some s \<and> (\<forall>k. pc (sess s k) \<noteq> Entry) \<and> pingW s = 2 \<and>
         run both_acked s = Some t \<and> pingW t = 0"
  by (simp add: both_started_def both_acked_def sys0_def session0_def sys_step_def loop_head_def
        all_side)

lemma returned_stays:
  assumes "sys_step i inp s = Some t" and "pc (sess s k) = Returned x"
  shows "pc (sess t k) = Returned x"
proof (rule side_cases [of k i])
  assume "k = i"
  with assms(2) have "sys_step i inp s = None" by (cases inp) (simp_all add: sys_step_def)
  with assms(1) show ?thesis by simp
next
  assume "k = peer i"
  with step_counters [OF assms(1)] assms(2) show ?thesis by simp
qed

lemma returned_stays_run:
  "run sched s = Some t \<Longrightarrow> pc (sess s k) = Returned x \<Longrightarrow> pc (sess t k) = Returned x"
proof (induction sched arbitrary: s)
  case Nil
  then show ?case by simp
next
  case (Cons y sched)
  obtain i inp where y: "y = (i, inp)" by (cases y)
  from Cons.prems(1) y obtain s1 where
    st: "sys_step i inp s = Some s1" and r: "run sched s1 = Some t"
    by (auto split: option.splits)
  from Cons.IH [OF r returned_stays [OF st Cons.prems(2)]] show ?case .
qed

lemma one_fails_runs:
  "\<exists>s t. run one_fails sys0 = Some s \<and>
         pc (sess s SrvOne) = Returned (Some ''Receive p2p message fail: EOF'') \<and>
         run other_acked s = Some t \<and> pc (sess t SrvTwo) = Wait \<and> ponged (sess t SrvTwo)"
  by (simp add: one_fails_def other_acked_def sys0_def session0_def sys_step_def loop_head_def
        receive_fail_def)

lemma one_started_runs:
  "\<exists>s t. run one_started sys0 = Some s \<and> pc (sess s SrvOne) = Recv \<and>
         sess s SrvTwo = session0 \<and> pingW s = 1 \<and>
         sys_step SrvOne (ReadGot (ReadErr ''EOF'')) s = Some t"
  by (simp add: one_started_def sys0_def session0_def sys_step_def loop_head_def)

lemma both_replied_runs:
  "\<exists>s t. run both_replied sys0 = Some s \<and>
         length (sent s SrvOne) + length (sent s SrvTwo) = 4 \<and>
         sys_step SrvOne (ReadGot (Decoded \<lparr>Pong = True, Created = 4\<rparr>)) s = Some t \<and>
         pc (sess t SrvOne) = Acked"
  by (simp add: both_replied_def sys0_def session0_def sys_step_def loop_head_def)


lemma apply_effect_none:
  "(apply_effect j eff u = None) = (eff = PingWWait \<and> pingW u \<noteq> 0)"
  by (cases "(j, eff, u)" rule: apply_effect.cases) simp_all

lemma sys_step_enabled:
  "(sys_step j inp u = None) =
     (\<not> deliverable inp (wire u j) \<or> step inp (sess u j) = None \<or>
      (\<exists>v. step inp (sess u j) = Some (PingWWait, v)) \<and> pingW u \<noteq> 0)"
  by (auto simp: sys_step_def apply_effect_none split: option.splits)

lemma sys_step_enabled_cong:
  assumes "wire u j = wire v j" and "sess u j = sess v j" and "pingW u = pingW v"
  shows "(sys_step j inp u = None) = (sys_step j inp v = None)"
  unfolding sys_step_enabled using assms by simp

lemma both_started_fail_runs:
  "\<exists>s t. run both_started sys0 = Some s \<and> pc (sess s SrvOne) = Recv \<and> wire s SrvOne \<noteq> [] \<and>
         pc (sess s SrvTwo) = Recv \<and> pingW s = 2 \<and>
         sys_step SrvOne (ReadGot (DecodeErr ''rlp: expected List'')) s = Some t"
  by (simp add: both_started_def sys0_def session0_def sys_step_def loop_head_def)

section \<open>The claims about the sessions\<close>

text \<open>
  Claim C4. When both sessions of the pair have returned \<open>nil\<close>, each side has sent
  exactly two messages, first the initial ping and then one pong, each side has
  received exactly what the other sent (one ping, answered by that one pong), and
  nothing is left on the wire: one initial message and one acknowledgement in each
  direction, and no second acknowledgement.
\<close>

theorem completed_pair_exchange:
  assumes "run sched sys0 = Some s" and "\<forall>i. pc (sess s i) = Returned None"
  shows "\<forall>i. map Pong (sent s i) = [False, True] \<and> got s i = sent s (peer i) \<and> wire s i = []"
proof
  fix i
  from reachable_invs [OF assms(1)] have inv: "pair_inv s" ..
  have sh: "shape (pc (sess s i)) (map Pong (sent s i)) (map Pong (got s i))"
    and w: "sent s (peer i) = got s i @ wire s i"
    and shp: "shape (pc (sess s (peer i))) (map Pong (sent s (peer i))) (map Pong (got s (peer i)))"
    using inv unfolding pair_inv_def by blast+
  from sh assms(2) have a: "map Pong (sent s i) = [False, True]" "map Pong (got s i) = [False, True]"
    by simp_all
  from shp assms(2) have "map Pong (sent s (peer i)) = [False, True]" by simp
  with w a(2) have "wire s i = []" by simp
  with a w show "map Pong (sent s i) = [False, True] \<and> got s i = sent s (peer i) \<and> wire s i = []"
    by simp
qed

theorem completed_pair_exchange_witness:
  "run clean_exchange sys0 \<noteq> None \<and>
   pc (sess (the (run clean_exchange sys0)) SrvOne) = Returned None \<and>
   pc (sess (the (run clean_exchange sys0)) SrvTwo) = Returned None \<and>
   map Pong (sent (the (run clean_exchange sys0)) SrvOne) = [False, True] \<and>
   map Pong (sent (the (run clean_exchange sys0)) SrvTwo) = [False, True]"
proof -
  from clean_exchange_runs obtain s where
    r: "run clean_exchange sys0 = Some s" and d: "\<forall>i. pc (sess s i) = Returned None" by blast
  from completed_pair_exchange [OF r d] r d show ?thesis by simp
qed

text \<open>
  Claim C5, as amended. A session that has returned \<open>nil\<close> has done so with the
  barrier at zero: \<open>pingW\<close> is zero, and both sessions have decoded their pong and
  are out of their receive loops. (A return with an error is not held back by the
  barrier, see below.)
\<close>

theorem nil_return_only_after_barrier_zero:
  assumes "run sched sys0 = Some s" and "pc (sess s i) = Returned None"
  shows "pingW s = 0 \<and> (\<forall>k. ponged (sess s k) \<and> past_loop (pc (sess s k)))"
proof -
  from reachable_invs [OF assms(1)] have inv: "pair_inv s" and nil: "nil_inv s" by simp_all
  from nil assms(2) have p: "past_loop (pc (sess s (peer i)))"
    unfolding nil_inv_def by blast
  have m: "past_loop (pc (sess s i))" using assms(2) by (simp add: past_loop_def)
  have pl: "past_loop (pc (sess s k))" for k
    by (rule side_cases [of k i]) (use p m in simp_all)
  have pg: "ponged (sess s k) = acked (pc (sess s k))" for k
    using inv unfolding pair_inv_def by blast
  have "pingW s = holds_unit (pc (sess s SrvOne)) + holds_unit (pc (sess s SrvTwo))"
    using inv unfolding pair_inv_def by blast
  moreover have "holds_unit (pc (sess s k)) = 0" for k
    using pl [of k] by (auto simp: past_loop_def holds_unit_def)
  ultimately have "pingW s = 0" by simp
  moreover have "ponged (sess s k)" for k
    using pg [of k] pl [of k] by (auto simp: past_loop_def acked_def)
  ultimately show ?thesis using pl by blast
qed

theorem nil_return_only_after_barrier_zero_witness:
  "run clean_exchange sys0 \<noteq> None \<and>
   pc (sess (the (run clean_exchange sys0)) SrvOne) = Returned None \<and>
   pingW (the (run clean_exchange sys0)) = 0 \<and>
   ponged (sess (the (run clean_exchange sys0)) SrvOne) \<and>
   ponged (sess (the (run clean_exchange sys0)) SrvTwo)"
proof -
  from clean_exchange_runs obtain s where
    r: "run clean_exchange sys0 = Some s" and d: "\<forall>i. pc (sess s i) = Returned None" by blast
  from d have d1: "pc (sess s SrvOne) = Returned None" by blast
  from nil_return_only_after_barrier_zero [OF r d1] r d1 show ?thesis by simp
qed


text \<open>
  Claim C5 as stated fails on a return with an error: the session on \<open>srv_one\<close>
  adds its unit, sends its ping and then fails to read. \<open>Run\<close> has returned, the
  session has not seen its pong, and \<open>pingW\<close> stands at one.
\<close>

theorem error_return_before_barrier_zero:
  "run read_failure sys0 \<noteq> None \<and>
   pc (sess (the (run read_failure sys0)) SrvOne) = Returned (Some ''Receive p2p message fail: EOF'') \<and>
   \<not> ponged (sess (the (run read_failure sys0)) SrvOne) \<and>
   pingW (the (run read_failure sys0)) = 1"
  by (simp add: read_failure_def sys0_def session0_def sys_step_def loop_head_def receive_fail_def)


text \<open>
  Claim C6, as amended. The barrier \<open>pingW\<close> is raised only by the
  \<open>pingW.Add(1)\<close> that opens each session's run: over any run of the pair it grows
  by no more than the number of sessions that had not yet started and have started
  since. So from a state in which both sessions have started, no run raises it
  again. \<open>protoW\<close> is never raised by the sessions.
\<close>

theorem barrier_falls_once_all_started:
  assumes "run sched s = Some t"
  shows "pingW t + unstarted t \<le> pingW s + unstarted s \<and> unstarted t \<le> unstarted s \<and>
         protoW t \<le> protoW s \<and>
         ((\<forall>k. pc (sess s k) \<noteq> Entry) \<longrightarrow> pingW t \<le> pingW s)"
proof -
  have main: "pingW t + unstarted t \<le> pingW s + unstarted s \<and> unstarted t \<le> unstarted s \<and>
              protoW t \<le> protoW s"
    using assms
  proof (induction sched arbitrary: s)
    case Nil
    then show ?case by simp
  next
    case (Cons x sched)
    obtain i inp where x: "x = (i, inp)" by (cases x)
    from Cons.prems x obtain s1 where
      st: "sys_step i inp s = Some s1" and r: "run sched s1 = Some t"
      by (auto split: option.splits)
    from step_unstarted [OF st] Cons.IH [OF r] show ?case by simp
  qed
  have u: "0 \<le> unstarted t" by (simp add: unstarted_def)
  have "pingW t \<le> pingW s" if "\<forall>k. pc (sess s k) \<noteq> Entry"
  proof -
    from that have "unstarted s = 0" by (simp add: unstarted_def)
    with main u show ?thesis by simp
  qed
  with main show ?thesis by blast
qed

theorem barrier_falls_once_all_started_witness:
  "run both_started sys0 \<noteq> None \<and>
   run both_acked (the (run both_started sys0)) \<noteq> None \<and>
   pingW (the (run both_started sys0)) = 2 \<and>
   pingW (the (run both_acked (the (run both_started sys0)))) = 0 \<and>
   pingW (the (run both_acked (the (run both_started sys0)))) \<le> pingW (the (run both_started sys0))"
proof -
  from both_started_runs obtain s t where
    r: "run both_started sys0 = Some s" and e: "\<forall>k. pc (sess s k) \<noteq> Entry" and
    p: "pingW s = 2" and r2: "run both_acked s = Some t" and q: "pingW t = 0" by blast
  from barrier_falls_once_all_started [OF r2] e r r2 p q show ?thesis by simp
qed


text \<open>
  Claim C6 as stated fails while the sessions are starting: the session on
  \<open>srv_one\<close> has begun its run and stands in its receive loop with \<open>pingW\<close> at
  one, and the first operation of the session on \<open>srv_two\<close> raises \<open>pingW\<close> to
  two.
\<close>

theorem barrier_raised_after_run_began:
  "run one_started sys0 \<noteq> None \<and>
   pc (sess (the (run one_started sys0)) SrvOne) = Recv \<and>
   pingW (the (run one_started sys0)) = 1 \<and>
   sys_step SrvTwo Go (the (run one_started sys0)) \<noteq> None \<and>
   pingW (the (sys_step SrvTwo Go (the (run one_started sys0)))) = 2"
  by (simp add: one_started_def sys0_def session0_def sys_step_def loop_head_def)


text \<open>
  Claim C7. A session standing at \<open>rw.ReadMsg()\<close> whose read fails with error
  \<open>e\<close> returns at once the error \<open>Receive p2p message fail: e\<close>; one whose frame
  fails to decode with error \<open>e\<close> returns at once
  \<open>Decode p2p message fail: e\<close>. Having returned it takes no further step (no second
  read) and it has sent nothing. The other session, the other session's wire and both
  wait groups are as they were, and the other session can take exactly the steps it
  could take before.
\<close>

theorem read_or_decode_failure_returns:
  assumes "pc (sess s i) = Recv"
    and "r = ReadErr e \<and> txt = ''Receive p2p message fail: '' @ e \<or>
         r = DecodeErr e \<and> txt = ''Decode p2p message fail: '' @ e \<and> wire s i \<noteq> []"
  shows "\<exists>t. sys_step i (ReadGot r) s = Some t \<and> pc (sess t i) = Returned (Some txt) \<and>
             (\<forall>inp. sys_step i inp t = None) \<and>
             sess t (peer i) = sess s (peer i) \<and> sent t = sent s \<and>
             wire t (peer i) = wire s (peer i) \<and> pingW t = pingW s \<and> protoW t = protoW s \<and>
             (\<forall>inp. (sys_step (peer i) inp t = None) = (sys_step (peer i) inp s = None))"
proof -
  have dead: "\<And>u x inp. pc (sess u i) = Returned x \<Longrightarrow> sys_step i inp u = None"
    subgoal for u x inp by (cases inp) (simp_all add: sys_step_def)
    done
  from assms(2) show ?thesis
  proof
    assume a: "r = ReadErr e \<and> txt = ''Receive p2p message fail: '' @ e"
    let ?t = "s\<lparr>sess := (sess s)(i := sess s i\<lparr>pc := Returned (Some (receive_fail e))\<rparr>)\<rparr>"
    have "sys_step i (ReadGot r) s = Some ?t" using a assms(1) by (simp add: sys_step_def)
    moreover have "\<forall>inp. sys_step i inp ?t = None" using dead [of ?t] by simp
    moreover have "\<forall>inp. (sys_step (peer i) inp ?t = None) = (sys_step (peer i) inp s = None)"
      using sys_step_enabled_cong [of ?t "peer i" s] by simp
    ultimately show ?thesis using a by (simp add: receive_fail_def)
  next
    assume a: "r = DecodeErr e \<and> txt = ''Decode p2p message fail: '' @ e \<and> wire s i \<noteq> []"
    let ?t = "s\<lparr>sess := (sess s)(i := sess s i\<lparr>pc := Returned (Some (decode_fail e))\<rparr>),
               wire := (wire s)(i := tl (wire s i)),
               got := (got s)(i := got s i @ take 1 (wire s i))\<rparr>"
    have "sys_step i (ReadGot r) s = Some ?t" using a assms(1) by (simp add: sys_step_def)
    moreover have "\<forall>inp. sys_step i inp ?t = None" using dead [of ?t] by simp
    moreover have "\<forall>inp. (sys_step (peer i) inp ?t = None) = (sys_step (peer i) inp s = None)"
      using sys_step_enabled_cong [of ?t "peer i" s] by simp
    ultimately show ?thesis using a by (simp add: decode_fail_def)
  qed
qed

theorem read_or_decode_failure_returns_witness:
  "run one_started sys0 \<noteq> None \<and>
   pc (sess (the (run one_started sys0)) SrvOne) = Recv \<and>
   sys_step SrvOne (ReadGot (ReadErr ''EOF'')) (the (run one_started sys0)) \<noteq> None \<and>
   pc (sess (the (sys_step SrvOne (ReadGot (ReadErr ''EOF'')) (the (run one_started sys0)))) SrvOne)
     = Returned (Some ''Receive p2p message fail: EOF'') \<and>
   run both_started sys0 \<noteq> None \<and>
   pc (sess (the (run both_started sys0)) SrvOne) = Recv \<and>
   wire (the (run both_started sys0)) SrvOne \<noteq> [] \<and>
   sys_step SrvOne (ReadGot (DecodeErr ''rlp: expected List'')) (the (run both_started sys0)) \<noteq> None \<and>
   pc (sess (the (sys_step SrvOne (ReadGot (DecodeErr ''rlp: expected List''))
                    (the (run both_started sys0)))) SrvOne)
     = Returned (Some ''Decode p2p message fail: rlp: expected List'') \<and>
   pc (sess (the (sys_step SrvOne (ReadGot (DecodeErr ''rlp: expected List''))
                    (the (run both_started sys0)))) SrvTwo) = Recv \<and>
   pingW (the (sys_step SrvOne (ReadGot (DecodeErr ''rlp: expected List''))
                    (the (run both_started sys0)))) = 2"
proof -
  from one_started_runs obtain s t where
    r: "run one_started sys0 = Some s" and h1: "pc (sess s SrvOne) = Recv" and
    st: "sys_step SrvOne (ReadGot (ReadErr ''EOF'')) s = Some t" by blast
  have h2: "ReadErr ''EOF'' = ReadErr ''EOF'' \<and>
            ''Receive p2p message fail: EOF'' = ''Receive p2p message fail: '' @ ''EOF'' \<or>
            ReadErr ''EOF'' = DecodeErr ''EOF'' \<and>
            ''Receive p2p message fail: EOF'' = ''Decode p2p message fail: '' @ ''EOF'' \<and>
            wire s SrvOne \<noteq> []"
    by simp
  from read_or_decode_failure_returns [OF h1 h2] r h1 st have a:
    "run one_started sys0 \<noteq> None \<and>
     pc (sess (the (run one_started sys0)) SrvOne) = Recv \<and>
     sys_step SrvOne (ReadGot (ReadErr ''EOF'')) (the (run one_started sys0)) \<noteq> None \<and>
     pc (sess (the (sys_step SrvOne (ReadGot (ReadErr ''EOF'')) (the (run one_started sys0)))) SrvOne)
       = Returned (Some ''Receive p2p message fail: EOF'')"
    by auto
  from both_started_fail_runs obtain s' t' where
    r': "run both_started sys0 = Some s'" and g1: "pc (sess s' SrvOne) = Recv" and
    w: "wire s' SrvOne \<noteq> []" and o: "pc (sess s' SrvTwo) = Recv" and p: "pingW s' = 2" and
    st': "sys_step SrvOne (ReadGot (DecodeErr ''rlp: expected List'')) s' = Some t'" by blast
  have g2: "DecodeErr ''rlp: expected List'' = ReadErr ''rlp: expected List'' \<and>
            ''Decode p2p message fail: rlp: expected List'' =
              ''Receive p2p message fail: '' @ ''rlp: expected List'' \<or>
            DecodeErr ''rlp: expected List'' = DecodeErr ''rlp: expected List'' \<and>
            ''Decode p2p message fail: rlp: expected List'' =
              ''Decode p2p message fail: '' @ ''rlp: expected List'' \<and>
            wire s' SrvOne \<noteq> []"
    using w by simp
  from read_or_decode_failure_returns [OF g1 g2] r' g1 w o p st' have b:
    "run both_started sys0 \<noteq> None \<and>
     pc (sess (the (run both_started sys0)) SrvOne) = Recv \<and>
     wire (the (run both_started sys0)) SrvOne \<noteq> [] \<and>
     sys_step SrvOne (ReadGot (DecodeErr ''rlp: expected List'')) (the (run both_started sys0)) \<noteq> None \<and>
     pc (sess (the (sys_step SrvOne (ReadGot (DecodeErr ''rlp: expected List''))
                      (the (run both_started sys0)))) SrvOne)
       = Returned (Some ''Decode p2p message fail: rlp: expected List'') \<and>
     pc (sess (the (sys_step SrvOne (ReadGot (DecodeErr ''rlp: expected List''))
                      (the (run both_started sys0)))) SrvTwo) = Recv \<and>
     pingW (the (sys_step SrvOne (ReadGot (DecodeErr ''rlp: expected List''))
                      (the (run both_started sys0)))) = 2"
    by auto
  from a b show ?thesis by blast
qed

text \<open>
  Claim C9. In every state the pair can reach, decoding a message with \<open>Pong\<close> set
  sends nothing (neither the list of sent messages nor the peer's wire changes) and
  leaves the session acknowledged; an acknowledged session cannot send at all; and
  the two sessions together have sent at most four messages.
\<close>

theorem pong_is_never_answered:
  assumes "run sched sys0 = Some s"
  shows "length (sent s SrvOne) + length (sent s SrvTwo) \<le> 4 \<and>
         (\<forall>i m t. sys_step i (ReadGot (Decoded m)) s = Some t \<and> Pong m \<longrightarrow>
            sent t = sent s \<and> wire t (peer i) = wire s (peer i) \<and> acked (pc (sess t i))) \<and>
         (\<forall>i now r. acked (pc (sess s i)) \<longrightarrow> sys_step i (SendAt now r) s = None)"
proof -
  from reachable_invs [OF assms] have inv: "pair_inv s" ..
  have sh: "shape (pc (sess s k)) (map Pong (sent s k)) (map Pong (got s k))" for k
    using inv unfolding pair_inv_def by blast
  have "length (map Pong (sent s k)) \<le> 2" for k
    using shape_sent [OF sh [of k]] by auto
  then have len: "length (sent s k) \<le> 2" for k by simp
  have a: "length (sent s SrvOne) + length (sent s SrvTwo) \<le> 4"
    using len [of SrvOne] len [of SrvTwo] by simp
  have b: "sent t = sent s \<and> wire t (peer i) = wire s (peer i) \<and> acked (pc (sess t i))"
    if "sys_step i (ReadGot (Decoded m)) s = Some t" and "Pong m" for i m t
    using that(1)
  proof (cases rule: sys_step_cases)
  qed (use that(2) in \<open>simp_all add: acked_def\<close>)
  have c: "sys_step i (SendAt now r) s = None" if "acked (pc (sess s i))" for i now r
    using that by (auto simp: sys_step_def acked_def)
  show ?thesis using a b c by blast
qed


theorem pong_is_never_answered_witness:
  "run both_replied sys0 \<noteq> None \<and>
   length (sent (the (run both_replied sys0)) SrvOne) +
     length (sent (the (run both_replied sys0)) SrvTwo) = 4 \<and>
   sys_step SrvOne (ReadGot (Decoded \<lparr>Pong = True, Created = 4\<rparr>)) (the (run both_replied sys0))
     \<noteq> None \<and>
   sent (the (sys_step SrvOne (ReadGot (Decoded \<lparr>Pong = True, Created = 4\<rparr>))
               (the (run both_replied sys0)))) = sent (the (run both_replied sys0))"
proof -
  from both_replied_runs obtain s t where
    r: "run both_replied sys0 = Some s" and
    l: "length (sent s SrvOne) + length (sent s SrvTwo) = 4" and
    st: "sys_step SrvOne (ReadGot (Decoded \<lparr>Pong = True, Created = 4\<rparr>)) s = Some t" by blast
  have "Pong \<lparr>Pong = True, Created = 4\<rparr>" by simp
  with pong_is_never_answered [OF r] st have "sent t = sent s" by blast
  with r l st show ?thesis by simp
qed

text \<open>
  Claim C10. Once a session of a reachable state has returned with an error, then in
  every later state it has not seen its pong and its unit is still in \<open>pingW\<close>: the
  counter is one plus what the other session holds, so it is at least one, the other
  session cannot get past \<open>pingW.Wait()\<close>, and it never reaches \<open>protoW.Done()\<close>
  or \<open>return nil\<close>.
\<close>

theorem failed_session_keeps_barrier_up:
  assumes "run sched sys0 = Some s" and "pc (sess s i) = Returned (Some e)"
    and "run later s = Some t"
  shows "\<not> ponged (sess t i) \<and> pingW t = 1 + holds_unit (pc (sess t (peer i))) \<and> 1 \<le> pingW t \<and>
         (pc (sess t (peer i)) = Wait \<longrightarrow> sys_step (peer i) Go t = None) \<and>
         pc (sess t (peer i)) \<noteq> Finish \<and> pc (sess t (peer i)) \<noteq> Returned None"
proof -
  from reachable_invs [OF assms(1)] have "pair_inv s" and "nil_inv s" by simp_all
  from invs_run [OF assms(3) this] have inv: "pair_inv t" and nil: "nil_inv t" by simp_all
  from returned_stays_run [OF assms(3) assms(2)] have r: "pc (sess t i) = Returned (Some e)" .
  have "ponged (sess t i) = acked (pc (sess t i))"
    using inv unfolding pair_inv_def by blast
  with r have a: "\<not> ponged (sess t i)" by (simp add: acked_def)
  have "pingW t = holds_unit (pc (sess t i)) + holds_unit (pc (sess t (peer i)))"
    using inv cnt_sym [of t i] unfolding pair_inv_def by blast
  with r have b: "pingW t = 1 + holds_unit (pc (sess t (peer i)))"
    by (simp add: holds_unit_def)
  with holds_unit_range [of "pc (sess t (peer i))"] have c: "1 \<le> pingW t" by auto
  have d: "sys_step (peer i) Go t = None" if "pc (sess t (peer i)) = Wait"
    using that c by (simp add: sys_step_def)
  have "pc (sess t (peer i)) = Finish \<or> pc (sess t (peer i)) = Returned None \<longrightarrow>
        past_loop (pc (sess t (peer (peer i))))"
    using nil unfolding nil_inv_def by blast
  with r have f: "pc (sess t (peer i)) \<noteq> Finish \<and> pc (sess t (peer i)) \<noteq> Returned None"
    by (auto simp: past_loop_def)
  show ?thesis using a b c d f by blast
qed

theorem failed_session_keeps_barrier_up_witness:
  "run one_fails sys0 \<noteq> None \<and>
   pc (sess (the (run one_fails sys0)) SrvOne) = Returned (Some ''Receive p2p message fail: EOF'') \<and>
   run other_acked (the (run one_fails sys0)) \<noteq> None \<and>
   pc (sess (the (run other_acked (the (run one_fails sys0)))) SrvTwo) = Wait \<and>
   pingW (the (run other_acked (the (run one_fails sys0)))) = 1 \<and>
   sys_step SrvTwo Go (the (run other_acked (the (run one_fails sys0)))) = None"
proof -
  from one_fails_runs obtain s t where
    r: "run one_fails sys0 = Some s" and
    e: "pc (sess s SrvOne) = Returned (Some ''Receive p2p message fail: EOF'')" and
    r2: "run other_acked s = Some t" and w: "pc (sess t SrvTwo) = Wait" by blast
  from failed_session_keeps_barrier_up [OF r e r2] r e r2 w show ?thesis
    by (simp add: holds_unit_def)
qed

section \<open>The claims about the simulation step\<close>

text \<open>
  Claim C2. Whatever the context and the node, \<open>check\<close> returns \<open>true\<close> and no
  error.
\<close>

theorem check_always_passes: "check c nid = (True, None)"
  by (simp add: check_def)

lemma progress_empty: "progress chk ns k [] = Inr []"
  by (induction ns) simp_all

lemma run_loop_empty: "pending st = [] \<Longrightarrow> run_loop chk evs st = (Some Success, st)"
  by (cases evs) simp_all

lemma trigger_step:
  assumes "pending st \<noteq> []"
  shows "run_loop chk (map Trigger (n # ns) @ rest) st =
     (if n \<notin> set (pending st) then run_loop chk (map Trigger ns @ rest) st
      else (case chk (length (checked st)) n of
              (_, Some err) \<Rightarrow> (Some (Aborted err), st\<lparr>checked := checked st @ [n]\<rparr>)
            | (True, None) \<Rightarrow> run_loop chk (map Trigger ns @ rest)
                (st\<lparr>pending := removeAll n (pending st), checked := checked st @ [n]\<rparr>)
            | (False, None) \<Rightarrow> run_loop chk (map Trigger ns @ rest)
                (st\<lparr>checked := checked st @ [n]\<rparr>)))"
  using assms by (simp split: prod.splits option.splits bool.splits)

lemma run_loop_triggers_err:
  "progress chk ns (length (checked st)) (pending st) = Inl err \<Longrightarrow>
   fst (run_loop chk (map Trigger ns @ rest) st) = Some (Aborted err)"
proof (induction ns arbitrary: st)
  case Nil
  then show ?case by simp
next
  case (Cons n ns)
  show ?case
  proof (cases "pending st = []")
    case True
    with Cons.prems show ?thesis by (simp add: progress_empty)
  next
    case False
    from Cons.prems show ?thesis
      unfolding trigger_step [OF False]
      by (auto split: if_splits prod.splits option.splits bool.splits
               intro: Cons.IH [of "st\<lparr>pending := removeAll n (pending st), checked := checked st @ [n]\<rparr>", simplified]
                      Cons.IH [of "st\<lparr>checked := checked st @ [n]\<rparr>", simplified]
                      Cons.IH)
  qed
qed

lemma run_loop_triggers_ok:
  "progress chk ns (length (checked st)) (pending st) = Inr P \<Longrightarrow>
   \<exists>st'. pending st' = P \<and>
     (P = [] \<longrightarrow> run_loop chk (map Trigger ns @ rest) st = (Some Success, st')) \<and>
     (P \<noteq> [] \<longrightarrow> run_loop chk (map Trigger ns @ rest) st = run_loop chk rest st')"
proof (induction ns arbitrary: st)
  case Nil
  then have "pending st = P" by simp
  then show ?case
    by (intro exI [of _ st]) (simp add: run_loop_empty)
next
  case (Cons n ns)
  show ?case
  proof (cases "pending st = []")
    case True
    with Cons.prems have "P = []" by (simp add: progress_empty)
    with True show ?thesis
      by (intro exI [of _ st]) (simp add: run_loop_empty)
  next
    case ne: False
    show ?thesis
    proof (cases "n \<in> set (pending st)")
      case False
      with Cons.prems have "progress chk ns (length (checked st)) (pending st) = Inr P" by simp
      from Cons.IH [OF this] obtain st' where
        p: "pending st' = P" and
        q: "P = [] \<longrightarrow> run_loop chk (map Trigger ns @ rest) st = (Some Success, st')" and
        r: "P \<noteq> [] \<longrightarrow> run_loop chk (map Trigger ns @ rest) st = run_loop chk rest st'"
        by blast
      have e: "run_loop chk (map Trigger (n # ns) @ rest) st =
               run_loop chk (map Trigger ns @ rest) st"
        using trigger_step [OF ne, of chk n ns rest] False by simp
      show ?thesis unfolding e using p q r by blast
    next
      case True
      obtain b eo where c: "chk (length (checked st)) n = (b, eo)"
        by (cases "chk (length (checked st)) n")
      from Cons.prems True c have eo: "eo = None" by (cases eo; cases b) simp_all
      define s1 where "s1 =
        (if b then st\<lparr>pending := removeAll n (pending st), checked := checked st @ [n]\<rparr>
         else st\<lparr>checked := checked st @ [n]\<rparr>)"
      from Cons.prems True c eo
      have "progress chk ns (length (checked s1)) (pending s1) = Inr P"
        unfolding s1_def by (cases b) simp_all
      from Cons.IH [OF this] obtain st' where
        p: "pending st' = P" and
        q: "P = [] \<longrightarrow> run_loop chk (map Trigger ns @ rest) s1 = (Some Success, st')" and
        r: "P \<noteq> [] \<longrightarrow> run_loop chk (map Trigger ns @ rest) s1 = run_loop chk rest st'"
        by blast
      have e: "run_loop chk (map Trigger (n # ns) @ rest) st =
               run_loop chk (map Trigger ns @ rest) s1"
        using trigger_step [OF ne, of chk n ns rest] True c eo
        unfolding s1_def by (cases b) simp_all
      show ?thesis unfolding e using p q r by blast
    qed
  qed
qed

text \<open>
  Claim C1, as amended. Let the trigger values \<open>ns\<close> arrive, in this order, before
  anything else is observed. If \<open>Check\<close> returns an error on the way, \<open>Run\<close>
  returns that error. Otherwise \<open>Run\<close> returns success if and only if \<open>pending\<close>
  has become empty by then, that is strictly before the cancellation; if the
  cancellation is observed next with nodes still pending, \<open>Run\<close> returns the timeout
  error that carries exactly those nodes (and the engine's \<open>pending\<close> is that
  list); if an error of the action is observed next with nodes still pending,
  \<open>Run\<close> returns that error; and if nothing more is observed \<open>Run\<close> has no
  result yet. What arrives after the cancellation changes nothing.
\<close>

theorem sim_Run_outcomes:
  "fst (sim_Run chk nodes (map Trigger ns @ Cancelled # post)) =
     (case progress chk ns 0 nodes of
        Inl err \<Rightarrow> Some (Aborted err)
      | Inr P \<Rightarrow> if P = [] then Some Success else Some (TimeoutError P)) \<and>
   fst (sim_Run chk nodes (map Trigger ns @ ActionError e # post)) =
     (case progress chk ns 0 nodes of
        Inl err \<Rightarrow> Some (Aborted err)
      | Inr P \<Rightarrow> if P = [] then Some Success else Some (Aborted e)) \<and>
   fst (sim_Run chk nodes (map Trigger ns)) =
     (case progress chk ns 0 nodes of
        Inl err \<Rightarrow> Some (Aborted err)
      | Inr P \<Rightarrow> if P = [] then Some Success else None) \<and>
   (case progress chk ns 0 nodes of
      Inl err \<Rightarrow> True
    | Inr P \<Rightarrow> pending (snd (sim_Run chk nodes (map Trigger ns @ Cancelled # post))) = P)"
proof (cases "progress chk ns 0 nodes")
  case (Inl err)
  then have "progress chk ns (length (checked \<lparr>pending = nodes, checked = []\<rparr>))
               (pending \<lparr>pending = nodes, checked = []\<rparr>) = Inl err" by simp
  from run_loop_triggers_err [OF this, of "Cancelled # post"]
       run_loop_triggers_err [OF this, of "ActionError e # post"]
       run_loop_triggers_err [OF this, of "[]"] Inl
  show ?thesis by (simp add: sim_Run_def)
next
  case (Inr P)
  then have p: "progress chk ns (length (checked \<lparr>pending = nodes, checked = []\<rparr>))
               (pending \<lparr>pending = nodes, checked = []\<rparr>) = Inr P" by simp
  from run_loop_triggers_ok [OF p, of "Cancelled # post"] obtain s1 where
    a: "pending s1 = P"
      "P = [] \<longrightarrow> sim_Run chk nodes (map Trigger ns @ Cancelled # post) = (Some Success, s1)"
      "P \<noteq> [] \<longrightarrow> sim_Run chk nodes (map Trigger ns @ Cancelled # post) =
                    run_loop chk (Cancelled # post) s1"
    unfolding sim_Run_def by blast
  from run_loop_triggers_ok [OF p, of "ActionError e # post"] obtain s2 where
    b: "pending s2 = P"
      "P = [] \<longrightarrow> sim_Run chk nodes (map Trigger ns @ ActionError e # post) = (Some Success, s2)"
      "P \<noteq> [] \<longrightarrow> sim_Run chk nodes (map Trigger ns @ ActionError e # post) =
                    run_loop chk (ActionError e # post) s2"
    unfolding sim_Run_def by blast
  from run_loop_triggers_ok [OF p, of "[]"] obtain s3 where
    c: "pending s3 = P"
      "P = [] \<longrightarrow> sim_Run chk nodes (map Trigger ns @ []) = (Some Success, s3)"
      "P \<noteq> [] \<longrightarrow> sim_Run chk nodes (map Trigger ns @ []) = run_loop chk [] s3"
    unfolding sim_Run_def by blast
  show ?thesis
  proof (cases "P = []")
    case True
    with a b c Inr show ?thesis by simp
  next
    case False
    with a b c Inr show ?thesis by simp
  qed
qed

theorem sim_Run_outcomes_witness:
  "progress passing_check [1] 0 [1, 2] = Inr [2] \<and>
   fst (sim_Run passing_check [1, 2] [Trigger 1, Cancelled, Trigger 2]) = Some (TimeoutError [2]) \<and>
   pending (snd (sim_Run passing_check [1, 2] [Trigger 1, Cancelled, Trigger 2])) = [2] \<and>
   progress passing_check [1, 3, 2] 0 [1, 2] = Inr [] \<and>
   fst (sim_Run passing_check [1, 2] [Trigger 1, Trigger 3, Trigger 2, Cancelled]) = Some Success \<and>
   progress failing_check [1] 0 [1, 2] = Inl ''unhealthy'' \<and>
   fst (sim_Run failing_check [1, 2] [Trigger 1, ActionError ''down'']) = Some (Aborted ''unhealthy'')"
proof -
  have p1: "progress passing_check [1] 0 [1, 2] = Inr [2]"
    by (simp add: passing_check_def)
  have p2: "progress passing_check [1, 3, 2] 0 [1, 2] = Inr []"
    by (simp add: passing_check_def)
  have p3: "progress failing_check [1] 0 [1, 2] = Inl ''unhealthy''"
    by (simp add: failing_check_def)
  from sim_Run_outcomes [where chk = passing_check and nodes = "[1, 2]" and ns = "[1]"
      and post = "[Trigger 2]"] p1
  have a: "fst (sim_Run passing_check [1, 2] [Trigger 1, Cancelled, Trigger 2]) =
             Some (TimeoutError [2]) \<and>
           pending (snd (sim_Run passing_check [1, 2] [Trigger 1, Cancelled, Trigger 2])) = [2]"
    by simp
  from sim_Run_outcomes [where chk = passing_check and nodes = "[1, 2]" and ns = "[1, 3, 2]"
      and post = "[]"] p2
  have b: "fst (sim_Run passing_check [1, 2] [Trigger 1, Trigger 3, Trigger 2, Cancelled]) =
             Some Success"
    by simp
  from sim_Run_outcomes [where chk = failing_check and nodes = "[1, 2]" and ns = "[1]"
      and post = "[]" and e = "''down''"] p3
  have c: "fst (sim_Run failing_check [1, 2] [Trigger 1, ActionError ''down'']) =
             Some (Aborted ''unhealthy'')"
    by simp
  from p1 p2 p3 a b c show ?thesis by blast
qed

text \<open>
  Claim C1 as stated fails when \<open>Check\<close> errs: with two target nodes and a predicate
  that returns an error, the first trigger ends the step with that error. Both nodes
  are still pending, the cancellation has not been observed, and the result is not a
  timeout error.
\<close>

theorem check_error_is_not_timeout:
  "sim_Run failing_check [1, 2] [Trigger 1, Cancelled] =
     (Some (Aborted ''unhealthy''), \<lparr>pending = [1, 2], checked = [1]\<rparr>)"
  by (simp add: sim_Run_def failing_check_def)


text \<open>
  Claim C8. A trigger for a node that is not in \<open>pending\<close> leaves the engine as it
  was: \<open>pending\<close> and the list of invocations of \<open>Check\<close> are unchanged and no
  result, so no error, is produced; the run goes on as if the trigger had not come.
\<close>

theorem trigger_outside_pending_ignored:
  assumes "n \<notin> set (pending st)"
  shows "on_event chk (Trigger n) st = (None, st) \<and>
         run_loop chk (Trigger n # evs) st = run_loop chk evs st"
proof -
  have a: "on_event chk (Trigger n) st = (None, st)" using assms by simp
  have "run_loop chk (Trigger n # evs) st = run_loop chk evs st"
  proof (cases "pending st = []")
    case True
    then show ?thesis by (cases evs) simp_all
  next
    case False
    with a show ?thesis by simp
  qed
  with a show ?thesis by simp
qed

theorem trigger_outside_pending_ignored_witness:
  "(1::nat) \<notin> set (pending \<lparr>pending = [2], checked = [1]\<rparr>) \<and>
   on_event passing_check (Trigger 1) \<lparr>pending = [2], checked = [1]\<rparr> =
     (None, \<lparr>pending = [2], checked = [1]\<rparr>) \<and>
   run_loop passing_check [Trigger 1, Trigger 2] \<lparr>pending = [2], checked = [1]\<rparr> =
     (Some Success, \<lparr>pending = [], checked = [1, 2]\<rparr>)"
proof -
  have h: "(1::nat) \<notin> set (pending \<lparr>pending = [2], checked = [1]\<rparr>)" by simp
  from trigger_outside_pending_ignored [OF h, of passing_check "[Trigger 2]"] h
  show ?thesis by (simp add: passing_check_def)
qed

end
